theory Spec2Isabelle
  imports Main "HOL-Library.Sublist"
begin

section \<open>Text: characters, lowercasing, punctuation\<close>

text \<open>
  A Python \<open>str\<close> is a sequence of code points. The model covers the code points
  U+0000 to U+00FF, one \<^typ>\<open>char\<close> per code point (\<open>of_char c\<close> is the code
  point), which contains every character of the configured keyword list. On this
  range \<open>str.lower\<close> works character by character: it moves A-Z, and the Latin-1
  capitals U+00C0-U+00D6 and U+00D8-U+00DE, up by 32 and leaves every other code
  point alone.
\<close>

definition lower_char :: "char \<Rightarrow> char" where
  "lower_char c =
     (let n = (of_char c :: nat)
      in if (65 \<le> n \<and> n \<le> 90) \<or> (192 \<le> n \<and> n \<le> 214) \<or> (216 \<le> n \<and> n \<le> 222)
         then char_of (n + 32) else c)"

definition lower :: "string \<Rightarrow> string" where
  "lower s = map lower_char s"

text \<open>
  \<open>string.punctuation\<close> is the 32 ASCII characters
  \<^verbatim>\<open>!"#$%&'()*+,-./:;<=>?@[\]^_`{|}~\<close>, that is the code points 33-47, 58-64,
  91-96 and 123-126.
\<close>

definition is_punctuation :: "char \<Rightarrow> bool" where
  "is_punctuation c =
     (let n = (of_char c :: nat)
      in (33 \<le> n \<and> n \<le> 47) \<or> (58 \<le> n \<and> n \<le> 64) \<or> (91 \<le> n \<and> n \<le> 96)
         \<or> (123 \<le> n \<and> n \<le> 126))"

text \<open>
  \<open>normalize_text(text)\<close>: \<open>text.lower().translate(str.maketrans('', '',
  string.punctuation))\<close>; the translation table deletes every punctuation
  character and maps nothing else.
\<close>

definition normalize_text :: "string \<Rightarrow> string" where
  "normalize_text text = filter (\<lambda>c. \<not> is_punctuation c) (lower text)"

section \<open>Keyword patterns\<close>

text \<open>
  \<open>\w\<close> of a Python 3 \<open>str\<close> pattern is \<open>_\<close> or an alphanumeric code point
  (\<open>str.isalnum\<close>). Below U+0100 these are 0-9, A-Z, a-z, \<open>_\<close>, U+00AA, U+00B2,
  U+00B3, U+00B5, U+00B9, U+00BA, U+00BC-U+00BE, U+00C0-U+00D6, U+00D8-U+00F6 and
  U+00F8-U+00FF.
\<close>

definition is_word_char :: "char \<Rightarrow> bool" where
  "is_word_char c =
     (let n = (of_char c :: nat)
      in (48 \<le> n \<and> n \<le> 57) \<or> (65 \<le> n \<and> n \<le> 90) \<or> n = 95 \<or> (97 \<le> n \<and> n \<le> 122)
         \<or> n = 170 \<or> n = 178 \<or> n = 179 \<or> n = 181 \<or> n = 185 \<or> n = 186
         \<or> (188 \<le> n \<and> n \<le> 190) \<or> (192 \<le> n \<and> n \<le> 214) \<or> (216 \<le> n \<and> n \<le> 246)
         \<or> (248 \<le> n \<and> n \<le> 255))"

text \<open>
  Every pattern of the program is \<open>re.compile(r'\b' + re.escape(kw.lower()) + r'\b')\<close>:
  \<open>re.escape\<close> makes the lowercased keyword a literal, so a compiled pattern is
  that literal between two word-boundary assertions, with no flag set (matching
  is case-sensitive).
\<close>

datatype pattern = WordBounded string

definition compile_keyword :: "string \<Rightarrow> pattern" where
  "compile_keyword kw = WordBounded (lower kw)"

text \<open>
  \<open>\b\<close> holds at a position where exactly one of the character before it and the
  character at it is a word character; outside the string there is no word
  character. \<open>prev\<close> says whether the character before the position is one.
\<close>

fun next_is_word :: "string \<Rightarrow> bool" where
  "next_is_word [] = False"
| "next_is_word (c # cs) = is_word_char c"

definition at_boundary :: "bool \<Rightarrow> string \<Rightarrow> bool" where
  "at_boundary prev rest = (prev \<noteq> next_is_word rest)"

definition prev_after :: "bool \<Rightarrow> string \<Rightarrow> bool" where
  "prev_after prev consumed = (if consumed = [] then prev else is_word_char (last consumed))"

text \<open>The pattern matched at the current position, \<open>rest\<close> being the text from there on.\<close>

definition match_here :: "bool \<Rightarrow> string \<Rightarrow> string \<Rightarrow> bool" where
  "match_here prev lit rest =
     (at_boundary prev rest \<and> take (length lit) rest = lit
      \<and> at_boundary (prev_after prev lit) (drop (length lit) rest))"

text \<open>\<open>pattern.search\<close>: the match is tried at every position, from left to right.\<close>

fun search_from :: "bool \<Rightarrow> string \<Rightarrow> string \<Rightarrow> bool" where
  "search_from prev lit [] = match_here prev lit []"
| "search_from prev lit (c # cs) =
     (match_here prev lit (c # cs) \<or> search_from (is_word_char c) lit cs)"

fun search :: "pattern \<Rightarrow> string \<Rightarrow> bool" where
  "search (WordBounded lit) content = search_from False lit content"

text \<open>
  The configured keyword list and its patterns.
\<close>

definition KEYWORDS :: "string list" where
  "KEYWORDS =
    [''Inspire Brands'', ''Dunkin'', ''Sonic'', ''Buffalo Wild Wings'', ''BWW'', ''Jimmy John's'',
     ''Arby's'', ''Baskin-Robbins'', ''McDonald's'', ''McDonalds'', ''McD'', ''Burger King'', ''KFC'',
     ''Wingstop'', ''Starbucks'', ''Chipotle'', ''Taco Bell'', ''Popeyes'', ''Wendy's'', ''Chick-fil-A'',
     ''Panera'', ''Plant-based'', ''Vegan fast food'', ''Lab-grown meat'', ''Functional food'',
     ''Mood-boosting food'', ''Spicy'', ''Sustainable packaging'', ''Zero-waste'', ''Ethical sourcing'',
     ''Ghost kitchens'', ''Virtual restaurants'', ''AI drive-thru'', ''Mobile ordering'',
     ''Contactless payment'', ''Personalized menu'', ''Digital loyalty'', ''Foodtainment'',
     ''Pop culture menu'', ''Secret menu hack'', ''Fine dining fast food'', ''Drinks-only locations'',
     ''Korean fried chicken'', ''Mexican street food'', ''Southeast Asian flavors'', ''Global fusion'',
     ''International QSR'', ''Spicy'', ''consumer confidence'', ''consumer spending'', ''GenZ'',
     ''culture trends'', ''consumer preferences'', ''Marketing strategies'', ''Brand loyalty'',
     ''Customer experience'', ''Digital transformation'', ''Sustainability'', ''Health trends'',
     ''Economic impact'']"

definition KEYWORD_PATTERNS :: "pattern list" where
  "KEYWORD_PATTERNS = map compile_keyword KEYWORDS"

section \<open>Tagging\<close>

record article =
  title :: string
  link :: string
  summary :: string
  published :: string

text \<open>The loop of \<open>tag_keywords\<close> over \<open>zip(keyword_patterns, original_keywords)\<close>.\<close>

fun tag_loop :: "string \<Rightarrow> (pattern \<times> string) list \<Rightarrow> string list \<Rightarrow> string list" where
  "tag_loop content [] matched = matched"
| "tag_loop content ((pat, original_kw) # rest) matched =
     tag_loop content rest (if search pat content then matched @ [original_kw] else matched)"

definition tag_keywords :: "article \<Rightarrow> pattern list \<Rightarrow> string list \<Rightarrow> string list" where
  "tag_keywords a keyword_patterns original_keywords =
     tag_loop (normalize_text (title a @ '' '' @ summary a))
       (zip keyword_patterns original_keywords) []"

section \<open>Feed aggregation\<close>

text \<open>
  What the program can catch: a failure of \<open>feedparser.parse\<close> (network error,
  malformed document), a missing attribute of a feed entry, a failure of the date
  parser.
\<close>

datatype exn = FetchError string | AttributeError string | DateParseError string

text \<open>
  An entry of a parsed feed, with the four keys the program reads; \<open>None\<close> is an
  absent key. \<open>entry.title\<close> and \<open>entry.link\<close> raise on an absent key,
  \<open>entry.get("summary", "")\<close> and \<open>entry.get("published", "")\<close> do not.
\<close>

record feed_entry =
  entry_title :: "string option"
  entry_link :: "string option"
  entry_summary :: "string option"
  entry_published :: "string option"

text \<open>The feed source: \<open>feedparser.parse(feed_url).entries\<close>, or the exception raised.\<close>

type_synonym feed_source = "string \<Rightarrow> exn + feed_entry list"

definition article_info :: "feed_entry \<Rightarrow> exn + article" where
  "article_info entry =
     (case entry_title entry of
        None \<Rightarrow> Inl (AttributeError ''title'')
      | Some t \<Rightarrow>
          (case entry_link entry of
             None \<Rightarrow> Inl (AttributeError ''link'')
           | Some l \<Rightarrow>
               Inr \<lparr>title = t, link = l,
                    summary = (case entry_summary entry of None \<Rightarrow> [] | Some s \<Rightarrow> s),
                    published = (case entry_published entry of None \<Rightarrow> [] | Some d \<Rightarrow> d)\<rparr>))"

text \<open>
  The inner loop appends to \<open>all_entries\<close> as it goes, so what was appended before
  an exception stays. The result is the list and the exception that ended the loop,
  if any.
\<close>

fun add_entries :: "feed_entry list \<Rightarrow> article list \<Rightarrow> article list \<times> exn option" where
  "add_entries [] all_entries = (all_entries, None)"
| "add_entries (entry # rest) all_entries =
     (case article_info entry of
        Inl e \<Rightarrow> (all_entries, Some e)
      | Inr info \<Rightarrow> add_entries rest (all_entries @ [info]))"

text \<open>The body of the \<open>try\<close>, for one feed.\<close>

definition try_feed :: "feed_source \<Rightarrow> string \<Rightarrow> article list \<Rightarrow> article list \<times> exn option" where
  "try_feed src feed_url all_entries =
     (case src feed_url of
        Inl e \<Rightarrow> (all_entries, Some e)
      | Inr entries \<Rightarrow> add_entries entries all_entries)"

text \<open>
  The loop over the feeds. \<open>except Exception\<close> catches whatever the body raised,
  reports it (\<open>logging.warning\<close>, \<open>st.error\<close>) and the loop goes on; the state is
  the list of entries and the list of reports.
\<close>

fun fetch_loop ::
  "feed_source \<Rightarrow> string list \<Rightarrow> article list \<times> (string \<times> exn) list
     \<Rightarrow> article list \<times> (string \<times> exn) list" where
  "fetch_loop src [] st = st"
| "fetch_loop src (feed_url # rest) (all_entries, reports) =
     (case try_feed src feed_url all_entries of
        (all_entries', None) \<Rightarrow> fetch_loop src rest (all_entries', reports)
      | (all_entries', Some e) \<Rightarrow> fetch_loop src rest (all_entries', reports @ [(feed_url, e)]))"

definition fetch_rss_entries :: "feed_source \<Rightarrow> string list \<Rightarrow> article list" where
  "fetch_rss_entries src feeds = fst (fetch_loop src feeds ([], []))"

definition fetch_reports :: "feed_source \<Rightarrow> string list \<Rightarrow> (string \<times> exn) list" where
  "fetch_reports src feeds = snd (fetch_loop src feeds ([], []))"

text \<open>
  The articles a list of entries contributes: those of its entries before the first
  one that cannot be read.
\<close>

fun entries_before_failure :: "feed_entry list \<Rightarrow> article list" where
  "entries_before_failure [] = []"
| "entries_before_failure (entry # rest) =
     (case article_info entry of
        Inl e \<Rightarrow> []
      | Inr info \<Rightarrow> info # entries_before_failure rest)"

text \<open>What one feed contributes to the aggregation.\<close>

definition contribution :: "feed_source \<Rightarrow> string \<Rightarrow> article list" where
  "contribution src u = (case src u of Inl e \<Rightarrow> [] | Inr es \<Rightarrow> entries_before_failure es)"

section \<open>Dates\<close>

text \<open>
  The date part of a \<open>datetime\<close>, which is all that \<open>strftime('%Y-%m-%d')\<close>
  reads. A \<open>datetime\<close> always has a year from 1 to 9999, a month from 1 to 12 and a
  day from 1 to 31.
\<close>

record datetime =
  year :: nat
  month :: nat
  day :: nat

definition valid_datetime :: "datetime \<Rightarrow> bool" where
  "valid_datetime d =
     (1 \<le> year d \<and> year d \<le> 9999 \<and> 1 \<le> month d \<and> month d \<le> 12 \<and> 1 \<le> day d \<and> day d \<le> 31)"

text \<open>
  The date parser at one moment: \<open>dateutil.parser.parse\<close>, or the exception
  raised. The parser fills the fields that a string does not give from the current
  date, so it is not one function of the string for all time: a
  \<open>clocked_date_parser\<close> gives the parser at each time, in seconds.
\<close>

type_synonym date_parser = "string \<Rightarrow> exn + datetime"

type_synonym clocked_date_parser = "nat \<Rightarrow> date_parser"

definition digit_char :: "nat \<Rightarrow> char" where
  "digit_char d = char_of (48 + d)"

function decimal :: "nat \<Rightarrow> string" where
  "decimal n = (if n < 10 then [digit_char n] else decimal (n div 10) @ [digit_char (n mod 10)])"
  by pat_completeness auto
termination
  by (relation "measure id") auto

definition zero_pad :: "nat \<Rightarrow> nat \<Rightarrow> string" where
  "zero_pad width n = replicate (width - length (decimal n)) CHR ''0'' @ decimal n"

text \<open>
  \<open>strftime('%Y-%m-%d')\<close> as CPython 3.11 returns it with the C library's
  \<open>%Y\<close>: the year in decimal with no padding, so that year 99 prints as
  \<open>99\<close> and year 1 as \<open>1\<close>; the month and the day zero-padded to two
  digits.
\<close>

definition strftime_ymd :: "datetime \<Rightarrow> string" where
  "strftime_ymd d = decimal (year d) @ ''-'' @ zero_pad 2 (month d) @ ''-'' @ zero_pad 2 (day d)"

definition is_digit :: "char \<Rightarrow> bool" where
  "is_digit c = (48 \<le> (of_char c :: nat) \<and> (of_char c :: nat) \<le> 57)"

text \<open>The shape \<open>YYYY-MM-DD\<close>: ten characters, digits but for the two hyphens.\<close>

fun is_ymd :: "string \<Rightarrow> bool" where
  "is_ymd [y1, y2, y3, y4, h1, m1, m2, h2, d1, d2] =
     (is_digit y1 \<and> is_digit y2 \<and> is_digit y3 \<and> is_digit y4 \<and> h1 = CHR ''-''
      \<and> is_digit m1 \<and> is_digit m2 \<and> h2 = CHR ''-'' \<and> is_digit d1 \<and> is_digit d2)"
| "is_ymd s = False"

section \<open>The digest pipeline\<close>

record result =
  Title :: string
  Date :: string
  Link :: string
  Keywords :: string
  Summary :: string

text \<open>\<open>sep.join(xs)\<close>.\<close>

fun join :: "string \<Rightarrow> string list \<Rightarrow> string" where
  "join sep [] = []"
| "join sep [x] = x"
| "join sep (x # y # zs) = x @ sep @ join sep (y # zs)"

text \<open>
  The \<open>try\<close> around the date: the parsed date formatted, or the sentinel when the
  parser raised.
\<close>

definition published_date :: "date_parser \<Rightarrow> article \<Rightarrow> string" where
  "published_date dp a =
     (case dp (published a) of
        Inl e \<Rightarrow> ''Unknown Date''
      | Inr d \<Rightarrow> strftime_ymd d)"

definition make_result :: "date_parser \<Rightarrow> article \<Rightarrow> string list \<Rightarrow> result" where
  "make_result dp a tags =
     \<lparr>Title = title a, Date = published_date dp a, Link = link a,
      Keywords = join '', '' tags, Summary = summary a\<rparr>"

text \<open>The loop of \<open>process_rss_feeds\<close> over the fetched entries; \<open>if tags\<close> is "not empty".\<close>

fun process_loop ::
  "date_parser \<Rightarrow> pattern list \<Rightarrow> string list \<Rightarrow> article list \<Rightarrow> result list \<Rightarrow> result list" where
  "process_loop dp ps ks [] results = results"
| "process_loop dp ps ks (a # rest) results =
     (let tags = tag_keywords a ps ks
      in if tags \<noteq> [] then process_loop dp ps ks rest (results @ [make_result dp a tags])
         else process_loop dp ps ks rest results)"

definition process_entries ::
  "date_parser \<Rightarrow> pattern list \<Rightarrow> string list \<Rightarrow> article list \<Rightarrow> result list" where
  "process_entries dp ps ks entries = process_loop dp ps ks entries []"

definition process_rss_feeds ::
  "feed_source \<Rightarrow> date_parser \<Rightarrow> string list \<Rightarrow> pattern list \<Rightarrow> string list \<Rightarrow> result list" where
  "process_rss_feeds src dp selected_feeds selected_keyword_patterns selected_keywords =
     process_entries dp selected_keyword_patterns selected_keywords
       (fetch_rss_entries src selected_feeds)"

section \<open>The result cache\<close>

text \<open>
  Both functions are decorated with \<open>st.cache_data(ttl=3600)\<close>: a result is
  stored under the arguments of the call with the time of the call, and a call with
  the same arguments within the next 3600 seconds returns the stored result and
  does not run the body. Each function has its own store; the body of
  \<open>process_rss_feeds\<close> calls the decorated \<open>fetch_rss_entries\<close>. Time is in
  seconds, given to each call. The feed source is a fixed function of the feed
  address: the upstream content does not change. The date parser is the one of the
  time of the call.
\<close>

definition ttl :: nat where
  "ttl = 3600"

record cache_state =
  fetch_cache :: "string list \<rightharpoonup> (nat \<times> article list)"
  process_cache :: "(string list \<times> pattern list \<times> string list) \<rightharpoonup> (nat \<times> result list)"

definition empty_cache :: cache_state where
  "empty_cache = \<lparr>fetch_cache = Map.empty, process_cache = Map.empty\<rparr>"

text \<open>A stored result that has not expired.\<close>

definition cache_hit :: "nat \<Rightarrow> (nat \<times> 'v) option \<Rightarrow> 'v option" where
  "cache_hit now stored =
     (case stored of
        None \<Rightarrow> None
      | Some (at, v) \<Rightarrow> if now < at + ttl then Some v else None)"

definition cached_fetch_rss_entries ::
  "feed_source \<Rightarrow> nat \<Rightarrow> string list \<Rightarrow> cache_state \<Rightarrow> article list \<times> cache_state" where
  "cached_fetch_rss_entries src now feeds st =
     (case cache_hit now (fetch_cache st feeds) of
        Some entries \<Rightarrow> (entries, st)
      | None \<Rightarrow>
          (let entries = fetch_rss_entries src feeds
           in (entries, st\<lparr>fetch_cache := (fetch_cache st)(feeds \<mapsto> (now, entries))\<rparr>)))"

definition cached_process_rss_feeds ::
  "feed_source \<Rightarrow> clocked_date_parser \<Rightarrow> nat \<Rightarrow> string list \<Rightarrow> pattern list
     \<Rightarrow> string list \<Rightarrow> cache_state \<Rightarrow> result list \<times> cache_state" where
  "cached_process_rss_feeds src cdp now feeds ps ks st =
     (case cache_hit now (process_cache st (feeds, ps, ks)) of
        Some results \<Rightarrow> (results, st)
      | None \<Rightarrow>
          (let (entries, st1) = cached_fetch_rss_entries src now feeds st;
               results = process_entries (cdp now) ps ks entries
           in (results,
               st1\<lparr>process_cache := (process_cache st1)((feeds, ps, ks) \<mapsto> (now, results))\<rparr>)))"

text \<open>
  A history of invocations, each with its time, feed selection, patterns and
  keywords; \<open>run_history\<close> is the cache they leave behind.
\<close>

type_synonym invocation = "nat \<times> string list \<times> pattern list \<times> string list"

fun run_history ::
  "feed_source \<Rightarrow> clocked_date_parser \<Rightarrow> invocation list \<Rightarrow> cache_state \<Rightarrow> cache_state" where
  "run_history src cdp [] st = st"
| "run_history src cdp ((now, feeds, ps, ks) # rest) st =
     run_history src cdp rest (snd (cached_process_rss_feeds src cdp now feeds ps ks st))"

text \<open>
  Every stored result is what the undecorated function returned on its key at the
  time it was stored.
\<close>

definition cache_consistent :: "feed_source \<Rightarrow> clocked_date_parser \<Rightarrow> cache_state \<Rightarrow> bool" where
  "cache_consistent src cdp st =
     ((\<forall>feeds at entries. fetch_cache st feeds = Some (at, entries) \<longrightarrow>
          entries = fetch_rss_entries src feeds)
      \<and> (\<forall>feeds ps ks at results. process_cache st (feeds, ps, ks) = Some (at, results) \<longrightarrow>
          results = process_rss_feeds src (cdp at) feeds ps ks))"

section \<open>Example inputs\<close>

text \<open>
  A feed source in which F1 fails and F2 returns three entries, the third without a
  summary, and a date parser that reads two date strings and fails on the rest.
\<close>

definition example_source :: feed_source where
  "example_source feed_url =
     (if feed_url = ''F1'' then Inl (FetchError ''timed out'')
      else if feed_url = ''F2'' then
        Inr [\<lparr>entry_title = Some ''Chipotle launches new menu'', entry_link = Some ''https://f2/1'',
              entry_summary = Some ''details here'',
              entry_published = Some ''2024-03-01T10:00:00Z''\<rparr>,
             \<lparr>entry_title = Some ''Weather today'', entry_link = Some ''https://f2/2'',
              entry_summary = Some ''rain'', entry_published = Some ''2024-01-15''\<rparr>,
             \<lparr>entry_title = Some ''Wendy's and Taco Bell news'', entry_link = Some ''https://f2/3'',
              entry_summary = None, entry_published = Some ''not a date''\<rparr>]
      else Inr [])"

definition example_articles :: "article list" where
  "example_articles =
     [\<lparr>title = ''Chipotle launches new menu'', link = ''https://f2/1'',
       summary = ''details here'', published = ''2024-03-01T10:00:00Z''\<rparr>,
      \<lparr>title = ''Weather today'', link = ''https://f2/2'',
       summary = ''rain'', published = ''2024-01-15''\<rparr>,
      \<lparr>title = ''Wendy's and Taco Bell news'', link = ''https://f2/3'',
       summary = [], published = ''not a date''\<rparr>]"

definition example_parser :: date_parser where
  "example_parser s =
     (if s = ''2024-03-01T10:00:00Z'' then Inr \<lparr>year = 2024, month = 3, day = 1\<rparr>
      else if s = ''2024-01-15'' then Inr \<lparr>year = 2024, month = 1, day = 15\<rparr>
      else Inl (DateParseError s))"

definition example_keywords :: "string list" where
  "example_keywords = [''Chipotle'', ''Wendy's'', ''Taco Bell'']"

text \<open>
  A feed whose one entry is dated in year 1, and a parser that reads that date.
\<close>

definition year_one_source :: feed_source where
  "year_one_source feed_url =
     Inr [\<lparr>entry_title = Some ''Chipotle opens'', entry_link = Some ''https://f3/1'',
           entry_summary = None, entry_published = Some ''0001-01-01T00:00:00Z''\<rparr>]"

definition year_one_parser :: date_parser where
  "year_one_parser s =
     (if s = ''0001-01-01T00:00:00Z'' then Inr \<lparr>year = 1, month = 1, day = 1\<rparr>
      else Inl (DateParseError s))"

text \<open>
  A feed whose one entry gives a time of day and no date, and a clocked parser that
  reads such a string as the current day: midnight between 2025-12-31 and
  2026-01-01 falls at second 1800 of the clock. Other strings are read as by
  \<open>example_parser\<close>, whatever the time.
\<close>

definition time_only_source :: feed_source where
  "time_only_source feed_url =
     Inr [\<lparr>entry_title = Some ''Chipotle opens late'', entry_link = Some ''https://f4/1'',
           entry_summary = None, entry_published = Some ''10:00''\<rparr>]"

definition midnight_parser :: clocked_date_parser where
  "midnight_parser now s =
     (if s = ''10:00'' then
        (if now < 1800 then Inr \<lparr>year = 2025, month = 12, day = 31\<rparr>
         else Inr \<lparr>year = 2026, month = 1, day = 1\<rparr>)
      else example_parser s)"

declare decimal.simps [simp del]

section \<open>Properties of the normaliser\<close>

lemma lower_char_idem: "lower_char (lower_char c) = lower_char c"
proof -
  have "of_char c < (256 :: nat)" by simp
  then show ?thesis
    by (auto simp: lower_char_def Let_def)
qed

lemma is_punctuation_lower_char: "is_punctuation (lower_char c) = is_punctuation c"
proof -
  have "of_char c < (256 :: nat)" by simp
  then show ?thesis
    by (auto simp: lower_char_def is_punctuation_def Let_def)
qed

lemma lower_filter_punctuation:
  "lower (filter (\<lambda>c. \<not> is_punctuation c) s) =
   filter (\<lambda>c. \<not> is_punctuation c) (lower s)"
  by (induction s) (simp_all add: lower_def is_punctuation_lower_char)

lemma lower_idem: "lower (lower s) = lower s"
  by (simp add: lower_def lower_char_idem)

lemma normalize_text_no_punctuation: "c \<in> set (normalize_text s) \<Longrightarrow> \<not> is_punctuation c"
  by (simp add: normalize_text_def)

text \<open>
  C7. The normaliser is idempotent: normalising an already normalised string changes
  nothing, for every string.
\<close>

theorem normalize_text_idempotent:
  "normalize_text (normalize_text x) = normalize_text x"
  by (simp add: normalize_text_def lower_filter_punctuation lower_idem)

section \<open>Properties of the matcher and the tagger\<close>

lemma is_word_char_lower_char: "is_word_char (lower_char c) = is_word_char c"
proof -
  have "of_char c < (256 :: nat)" by simp
  then show ?thesis
    by (auto simp: lower_char_def is_word_char_def Let_def)
qed

lemma tag_loop_filter:
  "tag_loop content zs matched = matched @ map snd (filter (\<lambda>z. search (fst z) content) zs)"
  by (induction zs arbitrary: matched) auto

lemma subseq_zip_filter_snd: "subseq (map snd (filter P (zip ps ks))) ks"
proof (induction ks arbitrary: ps)
  case Nil
  then show ?case by simp
next
  case (Cons k ks)
  show ?case
  proof (cases ps)
    case Nil
    then show ?thesis by simp
  next
    case (Cons p ps')
    with Cons.IH [of ps'] show ?thesis by auto
  qed
qed

lemma zip_map_compile_filter:
  "map snd (filter (\<lambda>z. search (fst z) content) (zip (map f ks) ks)) =
   filter (\<lambda>k. search (f k) content) ks"
  by (induction ks) auto

lemma search_from_split:
  "search_from prev lit s \<longleftrightarrow>
     (\<exists>pre post. s = pre @ lit @ post
        \<and> at_boundary (prev_after prev pre) (lit @ post)
        \<and> at_boundary (prev_after prev (pre @ lit)) post)"
  (is "?L prev s \<longleftrightarrow> ?R prev s")
proof (induction s arbitrary: prev)
  case Nil
  show ?case
    by (auto simp: match_here_def prev_after_def)
next
  case (Cons c cs)
  have here: "match_here prev lit (c # cs) \<longleftrightarrow>
      (\<exists>post. c # cs = lit @ post \<and> at_boundary prev (lit @ post)
         \<and> at_boundary (prev_after prev lit) post)"
  proof
    assume m: "match_here prev lit (c # cs)"
    then have "c # cs = lit @ drop (length lit) (c # cs)"
      by (metis append_take_drop_id match_here_def)
    with m show "\<exists>post. c # cs = lit @ post \<and> at_boundary prev (lit @ post)
         \<and> at_boundary (prev_after prev lit) post"
      unfolding match_here_def by metis
  next
    assume "\<exists>post. c # cs = lit @ post \<and> at_boundary prev (lit @ post)
         \<and> at_boundary (prev_after prev lit) post"
    then obtain post where p: "c # cs = lit @ post" "at_boundary prev (lit @ post)"
      "at_boundary (prev_after prev lit) post" by blast
    then show "match_here prev lit (c # cs)"
      by (simp add: match_here_def)
  qed
  have later: "?R (is_word_char c) cs \<longleftrightarrow>
      (\<exists>pre post. c # cs = (c # pre) @ lit @ post
        \<and> at_boundary (prev_after prev (c # pre)) (lit @ post)
        \<and> at_boundary (prev_after prev ((c # pre) @ lit)) post)"
    by (auto simp: prev_after_def)
  show ?case
  proof
    assume "search_from prev lit (c # cs)"
    then consider "match_here prev lit (c # cs)" | "search_from (is_word_char c) lit cs"
      by auto
    then show "?R prev (c # cs)"
    proof cases
      case 1
      with here obtain post where "c # cs = [] @ lit @ post"
        "at_boundary (prev_after prev []) (lit @ post)"
        "at_boundary (prev_after prev ([] @ lit)) post"
        by (auto simp: prev_after_def)
      then show ?thesis by blast
    next
      case 2
      with Cons.IH later show ?thesis by blast
    qed
  next
    assume "?R prev (c # cs)"
    then obtain pre post where r: "c # cs = pre @ lit @ post"
        "at_boundary (prev_after prev pre) (lit @ post)"
        "at_boundary (prev_after prev (pre @ lit)) post" by blast
    show "search_from prev lit (c # cs)"
    proof (cases pre)
      case Nil
      with r have "\<exists>post. c # cs = lit @ post \<and> at_boundary prev (lit @ post)
         \<and> at_boundary (prev_after prev lit) post"
        by (auto simp: prev_after_def)
      with here have "match_here prev lit (c # cs)" by blast
      then show ?thesis by simp
    next
      case (Cons d pre')
      with r have "d = c" by simp
      with r Cons later have "?R (is_word_char c) cs" by blast
      with Cons.IH show ?thesis by simp
    qed
  qed
qed

lemma search_infix:
  "search (WordBounded lit) s \<Longrightarrow> \<exists>pre post. s = pre @ lit @ post"
  by (auto simp: search_from_split)

lemma search_word_edges:
  assumes "lit \<noteq> []" "is_word_char (hd lit)" "is_word_char (last lit)"
  shows "search (WordBounded lit) s \<longleftrightarrow>
     (\<exists>pre post. s = pre @ lit @ post
        \<and> (pre = [] \<or> \<not> is_word_char (last pre))
        \<and> (post = [] \<or> \<not> is_word_char (hd post)))"
proof -
  have a: "at_boundary (prev_after False pre) (lit @ post) \<longleftrightarrow>
        (pre = [] \<or> \<not> is_word_char (last pre))" for pre post
    using assms by (cases lit) (auto simp: at_boundary_def prev_after_def)
  have b: "at_boundary (prev_after False (pre @ lit)) post \<longleftrightarrow>
        (post = [] \<or> \<not> is_word_char (hd post))" for pre post
    using assms by (cases post) (auto simp: at_boundary_def prev_after_def)
  show ?thesis
    by (simp add: search_from_split a b)
qed

lemma lower_eq_Nil: "lower kw = [] \<longleftrightarrow> kw = []"
  by (simp add: lower_def)

lemma hd_lower: "kw \<noteq> [] \<Longrightarrow> hd (lower kw) = lower_char (hd kw)"
  by (simp add: lower_def hd_map)

lemma last_lower: "kw \<noteq> [] \<Longrightarrow> last (lower kw) = lower_char (last kw)"
  by (simp add: lower_def last_map)

lemma tag_keywords_filter:
  "tag_keywords a ps ks =
     map snd (filter (\<lambda>z. search (fst z) (normalize_text (title a @ '' '' @ summary a)))
       (zip ps ks))"
  by (simp add: tag_keywords_def tag_loop_filter)

lemma tag_keywords_compiled:
  "tag_keywords a (map compile_keyword ks) ks =
     filter (\<lambda>k. search (compile_keyword k) (normalize_text (title a @ '' '' @ summary a))) ks"
  by (simp add: tag_keywords_filter zip_map_compile_filter)

lemma count_list_filter:
  "count_list (filter P xs) k = (if P k then count_list xs k else 0)"
  by (induction xs) auto

lemma punctuated_keyword_no_match:
  assumes "c \<in> set kw" "is_punctuation c"
  shows "\<not> search (compile_keyword kw) (normalize_text s)"
proof
  assume "search (compile_keyword kw) (normalize_text s)"
  then obtain pre post where e: "normalize_text s = pre @ lower kw @ post"
    unfolding compile_keyword_def using search_infix by blast
  from assms(1) have "lower_char c \<in> set (lower kw)"
    by (simp add: lower_def)
  with e have "lower_char c \<in> set (normalize_text s)" by simp
  then have "\<not> is_punctuation (lower_char c)"
    by (rule normalize_text_no_punctuation)
  with assms(2) show False
    by (simp add: is_punctuation_lower_char)
qed

section \<open>Properties of the date format\<close>

lemma is_digit_digit_char: "d < 10 \<Longrightarrow> is_digit (digit_char d)"
  by (simp add: is_digit_def digit_char_def)

lemma decimal_digits: "c \<in> set (decimal n) \<Longrightarrow> is_digit c"
proof (induction n arbitrary: c rule: decimal.induct)
  case (1 n)
  show ?case
  proof (cases "n < 10")
    case True
    with "1.prems" show ?thesis
      by (simp add: decimal.simps [of n] is_digit_digit_char)
  next
    case False
    with "1.prems" "1.IH" show ?thesis
      by (auto simp: decimal.simps [of n] is_digit_digit_char)
  qed
qed

lemma length_decimal_1: "n < 10 \<Longrightarrow> length (decimal n) = 1"
  by (simp add: decimal.simps [of n])

lemma length_decimal_2: "n < 100 \<Longrightarrow> length (decimal n) \<le> 2"
  by (cases "n < 10") (simp_all add: decimal.simps [of n] length_decimal_1)

lemma length_decimal_2_exact: "10 \<le> n \<Longrightarrow> n < 100 \<Longrightarrow> length (decimal n) = 2"
  by (simp add: decimal.simps [of n] length_decimal_1)

lemma length_decimal_3_exact: "100 \<le> n \<Longrightarrow> n < 1000 \<Longrightarrow> length (decimal n) = 3"
  using length_decimal_2_exact [of "n div 10"]
  by (simp add: decimal.simps [of n])

lemma length_decimal_4_exact: "1000 \<le> n \<Longrightarrow> n < 10000 \<Longrightarrow> length (decimal n) = 4"
  using length_decimal_3_exact [of "n div 10"]
  by (simp add: decimal.simps [of n])

lemma is_digit_zero: "is_digit CHR ''0''"
  by (simp add: is_digit_def)

lemma zero_pad_digits: "c \<in> set (zero_pad w n) \<Longrightarrow> is_digit c"
  by (auto simp: zero_pad_def decimal_digits is_digit_zero)

lemma length_zero_pad: "length (decimal n) \<le> w \<Longrightarrow> length (zero_pad w n) = w"
  by (simp add: zero_pad_def)

lemma list_of_length_2: "length xs = 2 \<Longrightarrow> \<exists>a b. xs = [a, b]"
  by (cases xs; cases "tl xs") auto

lemma list_of_length_4: "length xs = 4 \<Longrightarrow> \<exists>a b c d. xs = [a, b, c, d]"
  by (auto simp: length_Suc_conv eval_nat_numeral)

lemma strftime_ymd_shape:
  assumes "valid_datetime d" "1000 \<le> year d"
  shows "is_ymd (strftime_ymd d)"
proof -
  from assms have "length (decimal (year d)) = 4" "length (zero_pad 2 (month d)) = 2"
      "length (zero_pad 2 (day d)) = 2"
    by (simp_all add: valid_datetime_def length_zero_pad length_decimal_4_exact length_decimal_2)
  then obtain y1 y2 y3 y4 m1 m2 d1 d2 where
      y: "decimal (year d) = [y1, y2, y3, y4]"
      and m: "zero_pad 2 (month d) = [m1, m2]"
      and dd: "zero_pad 2 (day d) = [d1, d2]"
    using list_of_length_4 list_of_length_2 by metis
  have "is_digit y1" "is_digit y2" "is_digit y3" "is_digit y4"
    using decimal_digits [of _ "year d"] by (simp_all add: y)
  moreover have "is_digit m1" "is_digit m2"
    using zero_pad_digits [of _ 2 "month d"] by (simp_all add: m)
  moreover have "is_digit d1" "is_digit d2"
    using zero_pad_digits [of _ 2 "day d"] by (simp_all add: dd)
  ultimately show ?thesis
    by (simp add: strftime_ymd_def y m dd)
qed

section \<open>Properties of the aggregation and of the pipeline\<close>

lemma add_entries_append:
  "add_entries es acc = (acc @ entries_before_failure es, snd (add_entries es []))"
proof (induction es arbitrary: acc)
  case Nil
  show ?case by simp
next
  case (Cons e es)
  show ?case
  proof (cases "article_info e")
    case (Inl x)
    then show ?thesis by simp
  next
    case (Inr info)
    with Cons.IH [of "acc @ [info]"] Cons.IH [of "[info]"]
    show ?thesis by simp
  qed
qed

lemma try_feed_append:
  "fst (try_feed src u acc) = acc @ contribution src u"
  by (cases "src u") (simp_all add: try_feed_def contribution_def add_entries_append [of _ acc])

lemma fetch_loop_entries:
  "fst (fetch_loop src feeds (acc, reps)) = acc @ concat (map (contribution src) feeds)"
proof (induction feeds arbitrary: acc reps)
  case Nil
  show ?case by simp
next
  case (Cons u us)
  obtain acc' r where t: "try_feed src u acc = (acc', r)" by (cases "try_feed src u acc")
  with try_feed_append [of src u acc] have a: "acc' = acc @ contribution src u" by simp
  show ?case
    by (cases r) (simp_all add: t a Cons.IH)
qed

lemma fetch_rss_entries_concat:
  "fetch_rss_entries src feeds = concat (map (contribution src) feeds)"
  by (simp add: fetch_rss_entries_def fetch_loop_entries)

lemma process_loop_filter:
  "process_loop dp ps ks entries results =
     results @ map (\<lambda>a. make_result dp a (tag_keywords a ps ks))
                 (filter (\<lambda>a. tag_keywords a ps ks \<noteq> []) entries)"
  by (induction entries arbitrary: results) (simp_all add: Let_def)

lemma process_rss_feeds_filter:
  "process_rss_feeds src dp feeds ps ks =
     map (\<lambda>a. make_result dp a (tag_keywords a ps ks))
       (filter (\<lambda>a. tag_keywords a ps ks \<noteq> []) (fetch_rss_entries src feeds))"
  by (simp add: process_rss_feeds_def process_entries_def process_loop_filter)

section \<open>Claims about tagging\<close>

text \<open>
  C1. For every article and every keyword list, with any pattern list zipped against
  it, the tags returned are a subsequence of the keyword list, in the order of the
  list. With the patterns compiled from the list, the tags are exactly the keywords
  whose pattern finds a match in the normalised \<open>title + " " + summary\<close>. The
  order is that of the list, not that of the occurrences in the text: "Spicy Sonic"
  tagged with Sonic, Spicy gives Sonic, Spicy.
\<close>

theorem tag_keywords_subseq_in_order:
  "subseq (tag_keywords a ps ks) ks
   \<and> tag_keywords a (map compile_keyword ks) ks =
       filter (\<lambda>k. search (compile_keyword k) (normalize_text (title a @ '' '' @ summary a))) ks
   \<and> tag_keywords \<lparr>title = ''Spicy Sonic'', link = '''', summary = '''', published = ''''\<rparr>
        (map compile_keyword [''Sonic'', ''Spicy'']) [''Sonic'', ''Spicy''] = [''Sonic'', ''Spicy'']"
proof (intro conjI)
  show "subseq (tag_keywords a ps ks) ks"
    by (simp add: tag_keywords_filter subseq_zip_filter_snd)
  show "tag_keywords a (map compile_keyword ks) ks =
       filter (\<lambda>k. search (compile_keyword k) (normalize_text (title a @ '' '' @ summary a))) ks"
    by (rule tag_keywords_compiled)
  show "tag_keywords \<lparr>title = ''Spicy Sonic'', link = '''', summary = '''', published = ''''\<rparr>
        (map compile_keyword [''Sonic'', ''Spicy'']) [''Sonic'', ''Spicy''] = [''Sonic'', ''Spicy'']"
    by code_simp
qed

text \<open>
  C2. Matching is at word boundaries. The keyword McD does not tag the title
  "McDonald's" and does tag the title "McD announces". In general a keyword that
  begins and ends with a word character matches exactly when the text holds an
  occurrence of its lowercased form with no word character right before it and none
  right after it, so an occurrence inside a larger word is no match; and any match
  needs the whole lowercased keyword as one contiguous piece of the text.
\<close>

theorem keyword_match_is_word_bounded:
  "tag_keywords \<lparr>title = ''McDonald's'', link = '''', summary = '''', published = ''''\<rparr>
      [compile_keyword ''McD''] [''McD''] = []
   \<and> tag_keywords \<lparr>title = ''McD announces'', link = '''', summary = '''', published = ''''\<rparr>
      [compile_keyword ''McD''] [''McD''] = [''McD'']
   \<and> (kw \<noteq> [] \<and> is_word_char (hd kw) \<and> is_word_char (last kw) \<longrightarrow>
        (search (compile_keyword kw) content \<longleftrightarrow>
          (\<exists>pre post. content = pre @ lower kw @ post
             \<and> (pre = [] \<or> \<not> is_word_char (last pre))
             \<and> (post = [] \<or> \<not> is_word_char (hd post)))))
   \<and> (search (compile_keyword kw) content \<longrightarrow> (\<exists>pre post. content = pre @ lower kw @ post))"
proof (intro conjI impI)
  show "tag_keywords \<lparr>title = ''McDonald's'', link = '''', summary = '''', published = ''''\<rparr>
      [compile_keyword ''McD''] [''McD''] = []"
    by code_simp
  show "tag_keywords \<lparr>title = ''McD announces'', link = '''', summary = '''', published = ''''\<rparr>
      [compile_keyword ''McD''] [''McD''] = [''McD'']"
    by code_simp
  show "search (compile_keyword kw) content \<longleftrightarrow>
          (\<exists>pre post. content = pre @ lower kw @ post
             \<and> (pre = [] \<or> \<not> is_word_char (last pre))
             \<and> (post = [] \<or> \<not> is_word_char (hd post)))"
    if "kw \<noteq> [] \<and> is_word_char (hd kw) \<and> is_word_char (last kw)"
    unfolding compile_keyword_def using that
    by (intro search_word_edges)
       (simp_all add: lower_eq_Nil hd_lower last_lower is_word_char_lower_char)
  show "\<exists>pre post. content = pre @ lower kw @ post" if "search (compile_keyword kw) content"
    using that unfolding compile_keyword_def by (rule search_infix)
qed

text \<open>
  C9. A keyword that contains an ASCII punctuation character is never among the tags
  computed with the patterns compiled from the keyword list, whatever the article:
  the pattern keeps the character and the normalised text has none.
\<close>

theorem punctuated_keyword_never_tagged:
  "\<exists>c \<in> set kw. is_punctuation c \<Longrightarrow> kw \<notin> set (tag_keywords a (map compile_keyword ks) ks)"
  by (auto simp: tag_keywords_compiled dest: punctuated_keyword_no_match)

text \<open>
  C10. Tagging removes no duplicates: a keyword whose pattern matches the article is
  returned once for each position it has in the keyword list.
\<close>

theorem duplicate_keyword_tagged_twice:
  "search (compile_keyword kw) (normalize_text (title a @ '' '' @ summary a)) \<Longrightarrow>
   count_list (tag_keywords a (map compile_keyword ks) ks) kw = count_list ks kw"
  by (simp add: tag_keywords_compiled count_list_filter)

section \<open>Claims about the aggregation and the pipeline\<close>

lemma add_entries_readable:
  "map article_info es = map Inr as \<Longrightarrow>
     entries_before_failure es = as \<and> snd (add_entries es acc) = None"
proof (induction es arbitrary: as acc)
  case Nil
  then show ?case by simp
next
  case (Cons e es)
  then obtain a as' where as: "as = a # as'" "article_info e = Inr a"
    "map article_info es = map Inr as'"
    by (cases as) auto
  with Cons.IH [of as' "acc @ [a]"] show ?case by simp
qed

lemma try_feed_exn:
  "snd (try_feed src u acc) = snd (try_feed src u [])"
  by (cases "src u") (simp_all add: try_feed_def add_entries_append [of _ acc])

lemma fetch_loop_reports:
  "map fst (snd (fetch_loop src feeds (acc, reps))) =
     map fst reps @ filter (\<lambda>u. snd (try_feed src u []) \<noteq> None) feeds"
proof (induction feeds arbitrary: acc reps)
  case Nil
  show ?case by simp
next
  case (Cons u us)
  obtain acc' r where t: "try_feed src u acc = (acc', r)" by (cases "try_feed src u acc")
  with try_feed_exn [of src u acc] have r: "snd (try_feed src u []) = r" by simp
  show ?case
    by (cases r) (simp_all add: t r Cons.IH)
qed

text \<open>
  C3. Failure isolation. Take any feed list in which every feed either fails in the
  feed source or returns entries that all read as articles (\<open>arts u\<close> for the
  feed \<open>u\<close>). Then the aggregation returns exactly the articles of the feeds
  that did not fail, concatenated in feed order, and each failing feed is reported
  once; the result is a list in every case, no exception leaves the function.
\<close>

theorem fetch_failure_isolation:
  assumes "\<forall>u \<in> set feeds. case src u of Inl e \<Rightarrow> True
             | Inr es \<Rightarrow> map article_info es = map Inr (arts u)"
  shows "fetch_rss_entries src feeds = concat (map arts (filter (\<lambda>u. \<not> isl (src u)) feeds))
     \<and> map fst (fetch_reports src feeds) = filter (\<lambda>u. isl (src u)) feeds"
proof
  have c: "contribution src u = (if isl (src u) then [] else arts u)" if "u \<in> set feeds" for u
    using assms that add_entries_readable
    by (cases "src u") (auto simp: contribution_def)
  have "concat (map (contribution src) feeds) =
        concat (map arts (filter (\<lambda>u. \<not> isl (src u)) feeds))"
    using c by (induction feeds) auto
  then show "fetch_rss_entries src feeds =
      concat (map arts (filter (\<lambda>u. \<not> isl (src u)) feeds))"
    by (simp add: fetch_rss_entries_concat)
  have e: "(snd (try_feed src u []) \<noteq> None) = isl (src u)" if "u \<in> set feeds" for u
    using assms that add_entries_readable
    by (cases "src u") (auto simp: try_feed_def)
  have "filter (\<lambda>u. snd (try_feed src u []) \<noteq> None) feeds = filter (\<lambda>u. isl (src u)) feeds"
    using e by (intro filter_cong) auto
  then show "map fst (fetch_reports src feeds) = filter (\<lambda>u. isl (src u)) feeds"
    by (simp add: fetch_reports_def fetch_loop_reports)
qed

text \<open>
  C6. Order. The aggregation is the concatenation, in feed order, of what each feed
  contributes, in the order the source returned the entries. The pipeline's results
  are the results of the surviving entries in that same order: a filter followed
  by a map, nothing sorted.
\<close>

theorem aggregation_order_preserved:
  "fetch_rss_entries src feeds =
     concat (map (\<lambda>u. case src u of Inl e \<Rightarrow> [] | Inr es \<Rightarrow> entries_before_failure es) feeds)
   \<and> process_rss_feeds src dp feeds ps ks =
       map (\<lambda>a. make_result dp a (tag_keywords a ps ks))
         (filter (\<lambda>a. tag_keywords a ps ks \<noteq> []) (fetch_rss_entries src feeds))"
proof
  have "contribution src = (\<lambda>u. case src u of Inl e \<Rightarrow> [] | Inr es \<Rightarrow> entries_before_failure es)"
    by (rule ext) (simp add: contribution_def)
  then show "fetch_rss_entries src feeds =
     concat (map (\<lambda>u. case src u of Inl e \<Rightarrow> [] | Inr es \<Rightarrow> entries_before_failure es) feeds)"
    by (simp add: fetch_rss_entries_concat)
  show "process_rss_feeds src dp feeds ps ks =
       map (\<lambda>a. make_result dp a (tag_keywords a ps ks))
         (filter (\<lambda>a. tag_keywords a ps ks \<noteq> []) (fetch_rss_entries src feeds))"
    by (rule process_rss_feeds_filter)
qed

lemma tag_keywords_cong:
  "title a = title b \<Longrightarrow> summary a = summary b \<Longrightarrow> tag_keywords a ps ks = tag_keywords b ps ks"
  by (simp add: tag_keywords_def)

text \<open>
  C5. Zero-match drop. Every result of the pipeline comes from a fetched entry whose
  tag list is not empty, and carries that list; a fetched entry with no tag has no
  result with its title and summary in the output; the output has as many results
  as there are fetched entries with a tag.
\<close>

theorem zero_match_dropped:
  "(\<forall>r \<in> set (process_rss_feeds src dp feeds ps ks).
      \<exists>a \<in> set (fetch_rss_entries src feeds).
        tag_keywords a ps ks \<noteq> [] \<and> r = make_result dp a (tag_keywords a ps ks))
   \<and> (\<forall>a \<in> set (fetch_rss_entries src feeds). tag_keywords a ps ks = [] \<longrightarrow>
        (\<forall>r \<in> set (process_rss_feeds src dp feeds ps ks).
           \<not> (Title r = title a \<and> Summary r = summary a)))
   \<and> length (process_rss_feeds src dp feeds ps ks) =
       length (filter (\<lambda>a. tag_keywords a ps ks \<noteq> []) (fetch_rss_entries src feeds))"
proof (intro conjI)
  show 1: "\<forall>r \<in> set (process_rss_feeds src dp feeds ps ks).
      \<exists>a \<in> set (fetch_rss_entries src feeds).
        tag_keywords a ps ks \<noteq> [] \<and> r = make_result dp a (tag_keywords a ps ks)"
    by (auto simp: process_rss_feeds_filter)
  show "\<forall>a \<in> set (fetch_rss_entries src feeds). tag_keywords a ps ks = [] \<longrightarrow>
        (\<forall>r \<in> set (process_rss_feeds src dp feeds ps ks).
           \<not> (Title r = title a \<and> Summary r = summary a))"
  proof (intro ballI impI notI)
    fix a r
    assume a: "tag_keywords a ps ks = []"
      and r: "r \<in> set (process_rss_feeds src dp feeds ps ks)"
      and same: "Title r = title a \<and> Summary r = summary a"
    from 1 r obtain b where b: "tag_keywords b ps ks \<noteq> []"
      "r = make_result dp b (tag_keywords b ps ks)" by blast
    with same have "title b = title a" "summary b = summary a"
      by (simp_all add: make_result_def)
    then have "tag_keywords b ps ks = tag_keywords a ps ks" by (rule tag_keywords_cong)
    with a b show False by simp
  qed
  show "length (process_rss_feeds src dp feeds ps ks) =
       length (filter (\<lambda>a. tag_keywords a ps ks \<noteq> []) (fetch_rss_entries src feeds))"
    by (simp add: process_rss_feeds_filter)
qed

text \<open>
  C4. Date fallback. The date field of each result is, in order, that of
  a surviving entry: the sentinel "Unknown Date" when the parser fails on the
  entry's \<open>published\<close> string, the parsed date formatted by
  \<open>strftime('%Y-%m-%d')\<close> when it succeeds, and a failing parse fails nothing else.
  The formatted date has the shape YYYY-MM-DD when the parsed year is 1000 or later.
  So with a parser that returns only such dates, every date field is "Unknown Date"
  or has the shape YYYY-MM-DD.
\<close>

theorem date_fallback:
  "map Date (process_rss_feeds src dp feeds ps ks) =
     map (\<lambda>a. case dp (published a) of
                 Inl e \<Rightarrow> ''Unknown Date''
               | Inr d \<Rightarrow> strftime_ymd d)
       (filter (\<lambda>a. tag_keywords a ps ks \<noteq> []) (fetch_rss_entries src feeds))
   \<and> (valid_datetime d \<and> 1000 \<le> year d \<longrightarrow> is_ymd (strftime_ymd d))
   \<and> ((\<forall>s d. dp s = Inr d \<longrightarrow> valid_datetime d \<and> 1000 \<le> year d) \<longrightarrow>
        (\<forall>r \<in> set (process_rss_feeds src dp feeds ps ks).
           Date r = ''Unknown Date'' \<or> is_ymd (Date r)))"
proof (intro conjI impI)
  show "map Date (process_rss_feeds src dp feeds ps ks) =
           map (\<lambda>a. case dp (published a) of
                       Inl e \<Rightarrow> ''Unknown Date''
                     | Inr d \<Rightarrow> strftime_ymd d)
             (filter (\<lambda>a. tag_keywords a ps ks \<noteq> []) (fetch_rss_entries src feeds))"
    by (simp add: process_rss_feeds_filter make_result_def published_date_def comp_def)
  show "is_ymd (strftime_ymd d)" if "valid_datetime d \<and> 1000 \<le> year d"
    using that by (simp add: strftime_ymd_shape)
  show "\<forall>r \<in> set (process_rss_feeds src dp feeds ps ks).
           Date r = ''Unknown Date'' \<or> is_ymd (Date r)"
    if h: "\<forall>s d. dp s = Inr d \<longrightarrow> valid_datetime d \<and> 1000 \<le> year d"
  proof
    fix r
    assume "r \<in> set (process_rss_feeds src dp feeds ps ks)"
    then obtain a where r: "r = make_result dp a (tag_keywords a ps ks)"
      by (auto simp: process_rss_feeds_filter)
    show "Date r = ''Unknown Date'' \<or> is_ymd (Date r)"
    proof (cases "dp (published a)")
      case (Inl e)
      with r show ?thesis by (simp add: make_result_def published_date_def)
    next
      case (Inr d')
      with h have "valid_datetime d'" "1000 \<le> year d'" by blast+
      then have "is_ymd (strftime_ymd d')" by (rule strftime_ymd_shape)
      with r Inr show ?thesis by (simp add: make_result_def published_date_def)
    qed
  qed
qed

section \<open>The cache\<close>

lemma cache_hit_SomeD:
  "cache_hit now stored = Some v \<Longrightarrow> \<exists>at. stored = Some (at, v)"
  by (cases stored) (auto simp: cache_hit_def split: if_splits)

lemma cache_hit_fresh:
  "stored = Some (at, v) \<Longrightarrow> now < at + ttl \<Longrightarrow> cache_hit now stored = Some v"
  by (simp add: cache_hit_def)

lemma cache_consistent_empty: "cache_consistent src cdp empty_cache"
  by (simp add: cache_consistent_def empty_cache_def)

lemma cache_consistent_fetch_upd:
  assumes "cache_consistent src cdp st"
  shows "cache_consistent src cdp
           (st\<lparr>fetch_cache := (fetch_cache st)(feeds \<mapsto> (now, fetch_rss_entries src feeds))\<rparr>)"
  using assms unfolding cache_consistent_def
  by (simp add: fun_upd_def)

lemma cache_consistent_process_upd:
  assumes "cache_consistent src cdp st"
  shows "cache_consistent src cdp
           (st\<lparr>process_cache := (process_cache st)((feeds, ps, ks) \<mapsto>
               (now, process_rss_feeds src (cdp now) feeds ps ks))\<rparr>)"
  using assms unfolding cache_consistent_def
  by (simp add: fun_upd_def)

lemma cached_fetch_consistent:
  assumes "cache_consistent src cdp st"
  shows "fst (cached_fetch_rss_entries src now feeds st) = fetch_rss_entries src feeds
     \<and> cache_consistent src cdp (snd (cached_fetch_rss_entries src now feeds st))"
proof (cases "cache_hit now (fetch_cache st feeds)")
  case None
  then have "cached_fetch_rss_entries src now feeds st =
      (fetch_rss_entries src feeds,
       st\<lparr>fetch_cache := (fetch_cache st)(feeds \<mapsto> (now, fetch_rss_entries src feeds))\<rparr>)"
    by (simp add: cached_fetch_rss_entries_def Let_def)
  with cache_consistent_fetch_upd [OF assms] show ?thesis
    by (simp only: fst_conv snd_conv simp_thms)
next
  case (Some v)
  from cache_hit_SomeD [OF Some] obtain at where "fetch_cache st feeds = Some (at, v)" ..
  with assms have "v = fetch_rss_entries src feeds"
    unfolding cache_consistent_def by blast
  moreover from Some have "cached_fetch_rss_entries src now feeds st = (v, st)"
    by (simp add: cached_fetch_rss_entries_def)
  ultimately show ?thesis
    using assms by (simp only: fst_conv snd_conv simp_thms)
qed

text \<open>
  What a cached invocation returns: the result of the undecorated pipeline with the
  parser of the time the result was stored, which is the time of the invocation on
  a miss.
\<close>

lemma cached_process_consistent:
  assumes "cache_consistent src cdp st"
  shows "(\<exists>at. fst (cached_process_rss_feeds src cdp now feeds ps ks st) =
           process_rss_feeds src (cdp at) feeds ps ks)
     \<and> cache_consistent src cdp (snd (cached_process_rss_feeds src cdp now feeds ps ks st))"
proof (cases "cache_hit now (process_cache st (feeds, ps, ks))")
  case None
  obtain entries st1 where f: "cached_fetch_rss_entries src now feeds st = (entries, st1)"
    by (cases "cached_fetch_rss_entries src now feeds st")
  with cached_fetch_consistent [OF assms, of now feeds]
  have e: "entries = fetch_rss_entries src feeds" and c1: "cache_consistent src cdp st1"
    by simp_all
  from None f e have c: "cached_process_rss_feeds src cdp now feeds ps ks st =
      (process_rss_feeds src (cdp now) feeds ps ks,
       st1\<lparr>process_cache := (process_cache st1)((feeds, ps, ks) \<mapsto>
          (now, process_rss_feeds src (cdp now) feeds ps ks))\<rparr>)"
    by (simp add: cached_process_rss_feeds_def process_rss_feeds_def Let_def)
  have "\<exists>at. fst (cached_process_rss_feeds src cdp now feeds ps ks st) =
           process_rss_feeds src (cdp at) feeds ps ks"
    by (rule exI [of _ now]) (simp only: c fst_conv)
  moreover have "cache_consistent src cdp
      (snd (cached_process_rss_feeds src cdp now feeds ps ks st))"
    using cache_consistent_process_upd [OF c1] by (simp only: c snd_conv)
  ultimately show ?thesis by (rule conjI)
next
  case (Some v)
  from cache_hit_SomeD [OF Some] obtain at where
    "process_cache st (feeds, ps, ks) = Some (at, v)" ..
  with assms have v: "v = process_rss_feeds src (cdp at) feeds ps ks"
    unfolding cache_consistent_def by blast
  from Some have c: "cached_process_rss_feeds src cdp now feeds ps ks st = (v, st)"
    by (simp add: cached_process_rss_feeds_def)
  have "\<exists>at. fst (cached_process_rss_feeds src cdp now feeds ps ks st) =
           process_rss_feeds src (cdp at) feeds ps ks"
    by (rule exI [of _ at]) (simp only: c fst_conv v)
  moreover have "cache_consistent src cdp
      (snd (cached_process_rss_feeds src cdp now feeds ps ks st))"
    using assms by (simp only: c snd_conv)
  ultimately show ?thesis by (rule conjI)
qed

lemma run_history_consistent:
  "cache_consistent src cdp st \<Longrightarrow> cache_consistent src cdp (run_history src cdp history st)"
proof (induction history arbitrary: st)
  case Nil
  then show ?case by simp
next
  case (Cons i rest)
  obtain now feeds ps ks where i: "i = (now, feeds, ps, ks)" by (cases i)
  from Cons.prems have "cache_consistent src cdp
      (snd (cached_process_rss_feeds src cdp now feeds ps ks st))"
    by (rule conjunct2 [OF cached_process_consistent])
  then have "cache_consistent src cdp
      (run_history src cdp rest (snd (cached_process_rss_feeds src cdp now feeds ps ks st)))"
    by (rule Cons.IH)
  then show ?case
    by (simp only: i run_history.simps)
qed

text \<open>The pipeline reads the date parser only at the fetched entries' date strings.\<close>

lemma process_rss_feeds_parser_cong:
  assumes "\<forall>a \<in> set (fetch_rss_entries src feeds). dp (published a) = dp' (published a)"
  shows "process_rss_feeds src dp feeds ps ks = process_rss_feeds src dp' feeds ps ks"
proof -
  have "make_result dp a tags = make_result dp' a tags"
    if "a \<in> set (fetch_rss_entries src feeds)" for a tags
    using assms that by (simp add: make_result_def published_date_def)
  then show ?thesis
    by (simp add: process_rss_feeds_filter)
qed

text \<open>A cold cache, a stored result, and a hit on it.\<close>

lemma cached_process_cold:
  "cached_process_rss_feeds src cdp now feeds ps ks empty_cache =
     (process_rss_feeds src (cdp now) feeds ps ks,
      \<lparr>fetch_cache = [feeds \<mapsto> (now, fetch_rss_entries src feeds)],
       process_cache = [(feeds, ps, ks) \<mapsto> (now, process_rss_feeds src (cdp now) feeds ps ks)]\<rparr>)"
  by (simp add: cached_process_rss_feeds_def cached_fetch_rss_entries_def cache_hit_def
      empty_cache_def process_rss_feeds_def Let_def)

lemma cached_process_warm:
  assumes "process_cache st (feeds, ps, ks) = Some (at, v)" "now < at + ttl"
  shows "fst (cached_process_rss_feeds src cdp now feeds ps ks st) = v"
  using cache_hit_fresh [OF assms]
  by (simp add: cached_process_rss_feeds_def)

text \<open>
  C8. Cache transparency. Take a feed selection whose fetched entries
  have date strings that the parser reads the same at every time (complete dates,
  with nothing for the parser to fill from the current date). Then, whatever
  invocations came before, at whatever times and with whatever selections, an
  invocation of the cached pipeline returns what the undecorated pipeline computes
  at that time for its own selection, and an invocation on a warm cache returns the
  same result sequence as one with the same selection on an empty cache, at any two
  times.
\<close>

theorem cache_transparent:
  assumes "\<forall>t. \<forall>a \<in> set (fetch_rss_entries src feeds).
             cdp t (published a) = cdp now (published a)"
  shows "fst (cached_process_rss_feeds src cdp now feeds ps ks
            (run_history src cdp history empty_cache))
           = process_rss_feeds src (cdp now) feeds ps ks
     \<and> fst (cached_process_rss_feeds src cdp now feeds ps ks
            (run_history src cdp history empty_cache))
           = fst (cached_process_rss_feeds src cdp now' feeds ps ks empty_cache)"
proof -
  have same: "process_rss_feeds src (cdp t) feeds ps ks =
      process_rss_feeds src (cdp now) feeds ps ks" for t
    using assms by (intro process_rss_feeds_parser_cong) blast
  have w: "cache_consistent src cdp (run_history src cdp history empty_cache)"
    by (rule run_history_consistent [OF cache_consistent_empty])
  from cached_process_consistent [OF w, of now feeds ps ks] obtain at where
    "fst (cached_process_rss_feeds src cdp now feeds ps ks
       (run_history src cdp history empty_cache)) = process_rss_feeds src (cdp at) feeds ps ks"
    by blast
  then have a: "fst (cached_process_rss_feeds src cdp now feeds ps ks
       (run_history src cdp history empty_cache)) = process_rss_feeds src (cdp now) feeds ps ks"
    by (simp only: same [of at])
  have b: "fst (cached_process_rss_feeds src cdp now' feeds ps ks empty_cache)
      = process_rss_feeds src (cdp now) feeds ps ks"
    by (simp only: cached_process_cold fst_conv same [of now'])
  show ?thesis
    by (simp only: a b simp_thms)
qed

section \<open>The tagging claims at concrete inputs\<close>

theorem keyword_match_is_word_bounded_witness:
  "(''McD'' \<noteq> [] \<and> is_word_char (hd ''McD'') \<and> is_word_char (last ''McD''))
   \<and> search (compile_keyword ''McD'') ''mcd announces ''
   \<and> (\<exists>pre post. ''mcd announces '' = pre @ lower ''McD'' @ post
         \<and> (pre = [] \<or> \<not> is_word_char (last pre))
         \<and> (post = [] \<or> \<not> is_word_char (hd post)))"
proof -
  have h1: "''McD'' \<noteq> [] \<and> is_word_char (hd ''McD'') \<and> is_word_char (last ''McD'')"
    by code_simp
  have h2: "search (compile_keyword ''McD'') ''mcd announces ''"
    by code_simp
  from keyword_match_is_word_bounded [of "''McD''" "''mcd announces ''"] h1 h2
  show ?thesis by blast
qed

theorem punctuated_keyword_never_tagged_witness:
  "(\<exists>c \<in> set ''McDonald's''. is_punctuation c)
   \<and> ''McDonald's'' \<notin> set (tag_keywords
        \<lparr>title = ''McDonald's launches a menu'', link = '''', summary = '''', published = ''''\<rparr>
        (map compile_keyword KEYWORDS) KEYWORDS)"
proof -
  have h: "\<exists>c \<in> set ''McDonald's''. is_punctuation c"
    by code_simp
  from punctuated_keyword_never_tagged [OF h] h show ?thesis by blast
qed

theorem duplicate_keyword_tagged_twice_witness:
  "search (compile_keyword ''Spicy'')
     (normalize_text (title \<lparr>title = ''Spicy wings'', link = '''', summary = ''hot'', published = ''''\<rparr>
        @ '' '' @ summary \<lparr>title = ''Spicy wings'', link = '''', summary = ''hot'', published = ''''\<rparr>))
   \<and> count_list (tag_keywords
        \<lparr>title = ''Spicy wings'', link = '''', summary = ''hot'', published = ''''\<rparr>
        (map compile_keyword KEYWORDS) KEYWORDS) ''Spicy'' = 2"
proof -
  have h: "search (compile_keyword ''Spicy'')
     (normalize_text (title \<lparr>title = ''Spicy wings'', link = '''', summary = ''hot'', published = ''''\<rparr>
        @ '' '' @ summary \<lparr>title = ''Spicy wings'', link = '''', summary = ''hot'', published = ''''\<rparr>))"
    by code_simp
  have c: "count_list KEYWORDS ''Spicy'' = 2"
    by code_simp
  from duplicate_keyword_tagged_twice [OF h, of KEYWORDS] h c show ?thesis by simp
qed

section \<open>The example inputs evaluated\<close>

lemma example_source_F1: "example_source ''F1'' = Inl (FetchError ''timed out'')"
  by (simp add: example_source_def)

lemma example_source_F2_readable:
  "\<exists>es. example_source ''F2'' = Inr es \<and> map article_info es = map Inr example_articles"
  by (simp add: example_source_def example_articles_def article_info_def)

lemma example_fetch: "fetch_rss_entries example_source [''F1'', ''F2''] = example_articles"
proof -
  from example_source_F2_readable obtain es where
    es: "example_source ''F2'' = Inr es" "map article_info es = map Inr example_articles"
    by blast
  then have "entries_before_failure es = example_articles"
    using add_entries_readable by blast
  with es show ?thesis
    by (simp add: fetch_rss_entries_concat contribution_def example_source_F1)
qed

lemma example_tags_1:
  "tag_keywords \<lparr>title = ''Chipotle launches new menu'', link = ''https://f2/1'',
       summary = ''details here'', published = ''2024-03-01T10:00:00Z''\<rparr>
       (map compile_keyword example_keywords) example_keywords = [''Chipotle'']"
  by code_simp

lemma example_tags_2:
  "tag_keywords \<lparr>title = ''Weather today'', link = ''https://f2/2'',
       summary = ''rain'', published = ''2024-01-15''\<rparr>
       (map compile_keyword example_keywords) example_keywords = []"
  by code_simp

lemma example_tags_3:
  "tag_keywords \<lparr>title = ''Wendy's and Taco Bell news'', link = ''https://f2/3'',
       summary = [], published = ''not a date''\<rparr>
       (map compile_keyword example_keywords) example_keywords = [''Taco Bell'']"
  by code_simp

lemma example_survivors:
  "filter (\<lambda>a. tag_keywords a (map compile_keyword example_keywords) example_keywords \<noteq> [])
     example_articles =
   [\<lparr>title = ''Chipotle launches new menu'', link = ''https://f2/1'',
       summary = ''details here'', published = ''2024-03-01T10:00:00Z''\<rparr>,
    \<lparr>title = ''Wendy's and Taco Bell news'', link = ''https://f2/3'',
       summary = [], published = ''not a date''\<rparr>]"
  unfolding example_articles_def
  by (simp only: filter.simps example_tags_1 example_tags_2 example_tags_3
        list.distinct not_False_eq_True not_True_eq_False if_True if_False simp_thms)

lemma example_date_1: "example_parser ''2024-03-01T10:00:00Z'' = Inr \<lparr>year = 2024, month = 3, day = 1\<rparr>"
  by (simp add: example_parser_def)

lemma example_date_3: "example_parser ''not a date'' = Inl (DateParseError ''not a date'')"
  by (simp add: example_parser_def)

lemma example_strftime: "strftime_ymd \<lparr>year = 2024, month = 3, day = 1\<rparr> = ''2024-03-01''"
  by code_simp

lemma example_published_1:
  "(case example_parser ''2024-03-01T10:00:00Z'' of
      Inl e \<Rightarrow> ''Unknown Date''
    | Inr d \<Rightarrow> strftime_ymd d) = ''2024-03-01''"
  by (simp only: example_date_1 sum.case example_strftime)

lemma example_published_3:
  "(case example_parser ''not a date'' of
      Inl e \<Rightarrow> ''Unknown Date''
    | Inr d \<Rightarrow> strftime_ymd d) = ''Unknown Date''"
  by (simp only: example_date_3 sum.case)

lemma year_one_fetch:
  "fetch_rss_entries year_one_source [''F''] =
     [\<lparr>title = ''Chipotle opens'', link = ''https://f3/1'', summary = [],
       published = ''0001-01-01T00:00:00Z''\<rparr>]"
  by (simp add: fetch_rss_entries_concat contribution_def year_one_source_def article_info_def)

lemma year_one_tags:
  "tag_keywords \<lparr>title = ''Chipotle opens'', link = ''https://f3/1'', summary = [],
       published = ''0001-01-01T00:00:00Z''\<rparr> [compile_keyword ''Chipotle''] [''Chipotle'']
     = [''Chipotle'']"
  by code_simp

lemma year_one_strftime: "strftime_ymd \<lparr>year = 1, month = 1, day = 1\<rparr> = ''1-01-01''"
  by code_simp

lemma year_one_published:
  "(case year_one_parser ''0001-01-01T00:00:00Z'' of
      Inl e \<Rightarrow> ''Unknown Date''
    | Inr d \<Rightarrow> strftime_ymd d) = ''1-01-01''"
proof -
  have "year_one_parser ''0001-01-01T00:00:00Z'' = Inr \<lparr>year = 1, month = 1, day = 1\<rparr>"
    by (simp add: year_one_parser_def)
  then show ?thesis
    by (simp only: sum.case year_one_strftime)
qed

lemma year_one_dates:
  "map Date (process_rss_feeds year_one_source year_one_parser [''F'']
               [compile_keyword ''Chipotle''] [''Chipotle'']) = [''1-01-01'']"
  by (simp add: process_rss_feeds_filter year_one_fetch year_one_tags make_result_def
      published_date_def year_one_published)

lemma time_only_fetch:
  "fetch_rss_entries time_only_source [''F''] =
     [\<lparr>title = ''Chipotle opens late'', link = ''https://f4/1'', summary = [],
       published = ''10:00''\<rparr>]"
  by (simp add: fetch_rss_entries_concat contribution_def time_only_source_def article_info_def)

lemma time_only_tags:
  "tag_keywords \<lparr>title = ''Chipotle opens late'', link = ''https://f4/1'', summary = [],
       published = ''10:00''\<rparr> [compile_keyword ''Chipotle''] [''Chipotle'']
     = [''Chipotle'']"
  by code_simp

lemma new_years_eve_strftime:
  "strftime_ymd \<lparr>year = 2025, month = 12, day = 31\<rparr> = ''2025-12-31''"
  by code_simp

lemma new_years_day_strftime:
  "strftime_ymd \<lparr>year = 2026, month = 1, day = 1\<rparr> = ''2026-01-01''"
  by code_simp

lemma time_only_published_before_midnight:
  "(case midnight_parser 0 ''10:00'' of
      Inl e \<Rightarrow> ''Unknown Date''
    | Inr d \<Rightarrow> strftime_ymd d) = ''2025-12-31''"
proof -
  have "midnight_parser 0 ''10:00'' = Inr \<lparr>year = 2025, month = 12, day = 31\<rparr>"
    by (simp add: midnight_parser_def)
  then show ?thesis
    by (simp only: sum.case new_years_eve_strftime)
qed

lemma time_only_published_after_midnight:
  "(case midnight_parser 2000 ''10:00'' of
      Inl e \<Rightarrow> ''Unknown Date''
    | Inr d \<Rightarrow> strftime_ymd d) = ''2026-01-01''"
proof -
  have "midnight_parser 2000 ''10:00'' = Inr \<lparr>year = 2026, month = 1, day = 1\<rparr>"
    by (simp add: midnight_parser_def)
  then show ?thesis
    by (simp only: sum.case new_years_day_strftime)
qed

lemma time_only_dates_before_midnight:
  "map Date (process_rss_feeds time_only_source (midnight_parser 0) [''F'']
               [compile_keyword ''Chipotle''] [''Chipotle'']) = [''2025-12-31'']"
  by (simp add: process_rss_feeds_filter time_only_fetch time_only_tags make_result_def
      published_date_def time_only_published_before_midnight)

lemma time_only_dates_after_midnight:
  "map Date (process_rss_feeds time_only_source (midnight_parser 2000) [''F'']
               [compile_keyword ''Chipotle''] [''Chipotle'']) = [''2026-01-01'']"
  by (simp add: process_rss_feeds_filter time_only_fetch time_only_tags make_result_def
      published_date_def time_only_published_after_midnight)

section \<open>The aggregation and pipeline claims at the example inputs\<close>

theorem fetch_failure_isolation_witness:
  "fetch_rss_entries example_source [''F1'', ''F2''] = example_articles
   \<and> map fst (fetch_reports example_source [''F1'', ''F2'']) = [''F1'']"
proof -
  have h: "\<forall>u \<in> set [''F1'', ''F2'']. case example_source u of Inl e \<Rightarrow> True
             | Inr es \<Rightarrow> map article_info es = map Inr ((\<lambda>u. example_articles) u)"
    using example_source_F2_readable by (auto simp: example_source_F1)
  have i1: "isl (example_source ''F1'')"
    by (simp add: example_source_F1)
  have i2: "\<not> isl (example_source ''F2'')"
    using example_source_F2_readable by auto
  from fetch_failure_isolation [OF h] show ?thesis
    by (simp add: i1 i2)
qed

theorem date_fallback_witness:
  "map Date (process_rss_feeds example_source example_parser [''F1'', ''F2'']
               (map compile_keyword example_keywords) example_keywords)
     = [''2024-03-01'', ''Unknown Date'']
   \<and> is_ymd ''2024-03-01''"
proof -
  let ?out = "process_rss_feeds example_source example_parser [''F1'', ''F2'']
               (map compile_keyword example_keywords) example_keywords"
  note t = date_fallback [of example_source example_parser "[''F1'', ''F2'']"
      "map compile_keyword example_keywords" example_keywords
      "\<lparr>year = 2024, month = 3, day = 1\<rparr>"]
  have h: "\<forall>s d. example_parser s = Inr d \<longrightarrow> valid_datetime d \<and> 1000 \<le> year d"
    by (auto simp: example_parser_def valid_datetime_def split: if_splits)
  from t have "map Date ?out =
           map (\<lambda>a. case example_parser (published a) of
                       Inl e \<Rightarrow> ''Unknown Date''
                     | Inr d \<Rightarrow> strftime_ymd d)
             (filter (\<lambda>a. tag_keywords a (map compile_keyword example_keywords) example_keywords \<noteq> [])
                (fetch_rss_entries example_source [''F1'', ''F2'']))"
    by (rule conjunct1)
  then have dates: "map Date ?out = [''2024-03-01'', ''Unknown Date'']"
    by (simp add: example_fetch example_survivors example_published_1 example_published_3)
  from t have "(\<forall>s d. example_parser s = Inr d \<longrightarrow> valid_datetime d \<and> 1000 \<le> year d) \<longrightarrow>
        (\<forall>r \<in> set ?out. Date r = ''Unknown Date'' \<or> is_ymd (Date r))"
    by (rule conjunct2 [OF conjunct2])
  from this h have shaped: "\<forall>r \<in> set ?out. Date r = ''Unknown Date'' \<or> is_ymd (Date r)"
    by (rule mp)
  obtain r rs where out: "?out = r # rs"
    using dates by (cases ?out) simp_all
  from dates have first: "Date r = ''2024-03-01''"
    unfolding out by simp
  from shaped have "Date r = ''Unknown Date'' \<or> is_ymd (Date r)"
    unfolding out by simp
  then have either: "''2024-03-01'' = ''Unknown Date'' \<or> is_ymd ''2024-03-01''"
    by (simp only: first)
  have differ: "(''2024-03-01'' = ''Unknown Date'') = False"
    by simp
  from either have "is_ymd ''2024-03-01''"
    by (simp only: differ simp_thms)
  with dates show ?thesis by (rule conjI)
qed

theorem zero_match_dropped_witness:
  "length (process_rss_feeds example_source example_parser [''F1'', ''F2'']
             (map compile_keyword example_keywords) example_keywords) = 2
   \<and> \<not> (\<exists>r \<in> set (process_rss_feeds example_source example_parser [''F1'', ''F2'']
                      (map compile_keyword example_keywords) example_keywords).
           Title r = ''Weather today'' \<and> Summary r = ''rain'')"
proof -
  let ?a = "\<lparr>title = ''Weather today'', link = ''https://f2/2'',
       summary = ''rain'', published = ''2024-01-15''\<rparr>"
  let ?out = "process_rss_feeds example_source example_parser [''F1'', ''F2'']
             (map compile_keyword example_keywords) example_keywords"
  have m: "?a \<in> set (fetch_rss_entries example_source [''F1'', ''F2''])"
    unfolding example_fetch by (simp add: example_articles_def)
  have n: "length (filter (\<lambda>a. tag_keywords a (map compile_keyword example_keywords) example_keywords \<noteq> [])
             (fetch_rss_entries example_source [''F1'', ''F2''])) = 2"
    unfolding example_fetch example_survivors by simp
  note z = zero_match_dropped [of example_source example_parser "[''F1'', ''F2'']"
      "map compile_keyword example_keywords" example_keywords]
  from z n have l: "length ?out = 2" by (simp only:)
  from z have "\<forall>a \<in> set (fetch_rss_entries example_source [''F1'', ''F2'']).
      tag_keywords a (map compile_keyword example_keywords) example_keywords = [] \<longrightarrow>
        (\<forall>r \<in> set ?out. \<not> (Title r = title a \<and> Summary r = summary a))"
    by (rule conjunct1 [OF conjunct2])
  with m example_tags_2 have "\<forall>r \<in> set ?out. \<not> (Title r = title ?a \<and> Summary r = summary ?a)"
    by blast
  then have "\<not> (\<exists>r \<in> set ?out. Title r = ''Weather today'' \<and> Summary r = ''rain'')"
    by simp
  with l show ?thesis by (rule conjI)
qed

section \<open>Where the date shape and the cache transparency fail\<close>

text \<open>
  An entry dated in year 1 survives the keyword filter, its date parses, and its date
  field is neither "Unknown Date" nor of the shape YYYY-MM-DD.
\<close>

theorem date_fallback_counterexample:
  "map Date (process_rss_feeds year_one_source year_one_parser [''F'']
               [compile_keyword ''Chipotle''] [''Chipotle'']) = [''1-01-01'']
   \<and> \<not> is_ymd ''1-01-01''
   \<and> ''1-01-01'' \<noteq> ''Unknown Date''
   \<and> valid_datetime \<lparr>year = 1, month = 1, day = 1\<rparr>"
proof (intro conjI)
  show "map Date (process_rss_feeds year_one_source year_one_parser [''F'']
               [compile_keyword ''Chipotle''] [''Chipotle'']) = [''1-01-01'']"
    by (rule year_one_dates)
  show "\<not> is_ymd ''1-01-01''"
    by simp
  show "''1-01-01'' \<noteq> ''Unknown Date''"
    by simp
  show "valid_datetime \<lparr>year = 1, month = 1, day = 1\<rparr>"
    by (simp add: valid_datetime_def)
qed

text \<open>
  An entry whose date string is a time of day. The pipeline runs at second 0, before
  midnight, and again at second 2000, after midnight and within the hour: the
  second run is a cache hit and returns the date of the day before, where a run on
  an empty cache at the same second returns the date of the day.
\<close>

theorem cache_transparent_counterexample:
  "map Date (fst (cached_process_rss_feeds time_only_source midnight_parser 2000 [''F'']
       [compile_keyword ''Chipotle''] [''Chipotle'']
       (run_history time_only_source midnight_parser
          [(0, [''F''], [compile_keyword ''Chipotle''], [''Chipotle''])] empty_cache)))
     = [''2025-12-31'']
   \<and> map Date (fst (cached_process_rss_feeds time_only_source midnight_parser 2000 [''F'']
       [compile_keyword ''Chipotle''] [''Chipotle''] empty_cache))
     = [''2026-01-01'']
   \<and> fst (cached_process_rss_feeds time_only_source midnight_parser 2000 [''F'']
       [compile_keyword ''Chipotle''] [''Chipotle'']
       (run_history time_only_source midnight_parser
          [(0, [''F''], [compile_keyword ''Chipotle''], [''Chipotle''])] empty_cache))
     \<noteq> fst (cached_process_rss_feeds time_only_source midnight_parser 2000 [''F'']
       [compile_keyword ''Chipotle''] [''Chipotle''] empty_cache)"
proof -
  let ?ps = "[compile_keyword ''Chipotle'']"
  let ?ks = "[''Chipotle'']"
  let ?warm_state = "run_history time_only_source midnight_parser
          [(0, [''F''], ?ps, ?ks)] empty_cache"
  let ?before = "process_rss_feeds time_only_source (midnight_parser 0) [''F''] ?ps ?ks"
  let ?after = "process_rss_feeds time_only_source (midnight_parser 2000) [''F''] ?ps ?ks"
  have "?warm_state =
      snd (cached_process_rss_feeds time_only_source midnight_parser 0 [''F''] ?ps ?ks empty_cache)"
    by (simp only: run_history.simps)
  then have stored: "process_cache ?warm_state ([''F''], ?ps, ?ks) = Some (0, ?before)"
    by (simp only: cached_process_cold snd_conv cache_state.select_convs fun_upd_same)
  have fresh: "(2000 :: nat) < 0 + ttl"
    by (simp add: ttl_def)
  have warm: "fst (cached_process_rss_feeds time_only_source midnight_parser 2000 [''F'']
       ?ps ?ks ?warm_state) = ?before"
    by (rule cached_process_warm [OF stored fresh])
  have cold: "fst (cached_process_rss_feeds time_only_source midnight_parser 2000 [''F'']
       ?ps ?ks empty_cache) = ?after"
    by (simp only: cached_process_cold fst_conv)
  have differ: "?before \<noteq> ?after"
  proof
    assume "?before = ?after"
    then have "map Date ?before = map Date ?after" by (rule arg_cong)
    then show False
      by (simp only: time_only_dates_before_midnight time_only_dates_after_midnight) simp
  qed
  show ?thesis
    by (simp only: warm cold time_only_dates_before_midnight time_only_dates_after_midnight
        differ simp_thms not_False_eq_True)
qed

section \<open>The cache claim at the example inputs\<close>

theorem cache_transparent_witness:
  "fst (cached_process_rss_feeds example_source midnight_parser 2000 [''F1'', ''F2'']
          (map compile_keyword example_keywords) example_keywords
          (run_history example_source midnight_parser
             [(0, [''F1'', ''F2''], map compile_keyword example_keywords, example_keywords)]
             empty_cache))
     = fst (cached_process_rss_feeds example_source midnight_parser 5000 [''F1'', ''F2'']
          (map compile_keyword example_keywords) example_keywords empty_cache)"
proof -
  have h: "\<forall>t. \<forall>a \<in> set (fetch_rss_entries example_source [''F1'', ''F2'']).
             midnight_parser t (published a) = midnight_parser 2000 (published a)"
    unfolding example_fetch by (simp add: example_articles_def midnight_parser_def)
  from cache_transparent [OF h, where ps = "map compile_keyword example_keywords"
      and ks = example_keywords and now' = 5000
      and history = "[(0, [''F1'', ''F2''], map compile_keyword example_keywords,
                      example_keywords)]"]
  show ?thesis by (rule conjunct2)
qed

end
